theory Spec2Isabelle
  imports Main "HOL-Library.Sublist" "HOL-Library.AList"
begin

section \<open>The crawl engine of \<open>scraper_tool/scraper.py\<close>\<close>

text \<open>
  The development embeds the class \<open>Scraper\<close> of \<open>src/scraper_tool/scraper.py\<close>:
  its constructor, \<open>is_valid_url\<close>, \<open>normalize_url\<close> and the loop of \<open>crawl\<close>.

  A Python \<open>str\<close> is a \<open>string\<close>; a \<open>char\<close> stands for a code point below 256.
  A Python exception is a value of type \<open>exn\<close>, and a computation that may raise returns
  \<open>exn + 'a\<close> with \<open>Inl\<close> for the raised exception.
\<close>

subsection \<open>Strings\<close>

datatype exn = Exception string

text \<open>\<open>s.split(sep)\<close> for a separator of one character.\<close>

fun py_split :: "char \<Rightarrow> string \<Rightarrow> string list" where
  "py_split sep [] = [[]]"
| "py_split sep (c # cs) =
     (if c = sep then [] # py_split sep cs
      else (case py_split sep cs of
              [] \<Rightarrow> [[c]]
            | w # ws \<Rightarrow> (c # w) # ws))"

text \<open>\<open>xs[0]\<close> and \<open>xs[-1]\<close>: both raise \<open>IndexError\<close> on the empty list.\<close>

definition py_item0 :: "'a list \<Rightarrow> exn + 'a" where
  "py_item0 xs =
     (case xs of
        [] \<Rightarrow> Inl (Exception ''IndexError: list index out of range'')
      | x # _ \<Rightarrow> Inr x)"

definition py_item_last :: "'a list \<Rightarrow> exn + 'a" where
  "py_item_last xs =
     (case xs of
        [] \<Rightarrow> Inl (Exception ''IndexError: list index out of range'')
      | _ # _ \<Rightarrow> Inr (last xs))"

text \<open>\<open>s.rstrip(chars)\<close> removes every trailing character that occurs in \<open>chars\<close>.\<close>

definition py_rstrip :: "string \<Rightarrow> string \<Rightarrow> string" where
  "py_rstrip chars s = rev (dropWhile (\<lambda>c. c \<in> set chars) (rev s))"

text \<open>\<open>str.isspace\<close> on the code points below 256, and \<open>s.strip()\<close>.\<close>

definition py_isspace :: "char \<Rightarrow> bool" where
  "py_isspace c = ((of_char c :: nat) \<in> {9, 10, 11, 12, 13, 28, 29, 30, 31, 32, 133, 160})"

definition py_strip :: "string \<Rightarrow> string" where
  "py_strip s = rev (dropWhile py_isspace (rev (dropWhile py_isspace s)))"

definition py_endswith :: "string \<Rightarrow> string \<Rightarrow> bool" where
  "py_endswith s suf = suffix suf s"

definition py_startswith :: "string \<Rightarrow> string \<Rightarrow> bool" where
  "py_startswith s pre = prefix pre s"

subsection \<open>\<open>Scraper.normalize_url\<close>\<close>

text \<open>\<^verbatim>\<open>return url.split('#')[0].rstrip('/')\<close>\<close>

definition normalize_url :: "string \<Rightarrow> exn + string" where
  "normalize_url url =
     (case py_item0 (py_split CHR ''#'' url) of
        Inl e \<Rightarrow> Inl e
      | Inr s \<Rightarrow> Inr (py_rstrip ''/'' s))"

text \<open>The key \<open>normalize_url\<close> returns (it is shown below never to raise).\<close>

definition url_key :: "string \<Rightarrow> string" where
  "url_key url = (case normalize_url url of Inr key \<Rightarrow> key | Inl _ \<Rightarrow> url)"

text \<open>
  The normalizer as section 4.1 of the specification words it: everything from the first
  \<open>#\<close> onward is removed, then one trailing \<open>/\<close> if present. It is compared with
  \<open>normalize_url\<close> below and used nowhere else.
\<close>

definition normalize_one_slash_spec :: "string \<Rightarrow> string" where
  "normalize_one_slash_spec u =
     (let s = takeWhile (\<lambda>c. c \<noteq> CHR ''#'') u
      in if s \<noteq> [] \<and> last s = CHR ''/'' then butlast s else s)"

subsection \<open>Post-processing of the converted markup\<close>

text \<open>
  \<^verbatim>\<open>re.sub(r'\n{3,}', '\n\n', markdown)\<close>: the scan goes from left to right; where
  the greedy pattern matches (three or more line feeds start here) the whole run is
  replaced by two line feeds and the scan goes on behind it, elsewhere one character is
  copied.
\<close>

function re_sub_newlines :: "string \<Rightarrow> string" where
  "re_sub_newlines [] = []"
| "re_sub_newlines (c # cs) =
     (if 3 \<le> length (takeWhile (\<lambda>x. x = CHR 0x0A) (c # cs))
      then CHR 0x0A # CHR 0x0A # re_sub_newlines (dropWhile (\<lambda>x. x = CHR 0x0A) (c # cs))
      else c # re_sub_newlines cs)"
  by pat_completeness auto
termination
  by (relation "measure length") (auto simp: length_dropWhile_le less_Suc_eq_le split: if_splits)

text \<open>\<^verbatim>\<open>markdown = re.sub(r'\n{3,}', '\n\n', markdown).strip()\<close>\<close>

definition post_process :: "string \<Rightarrow> string" where
  "post_process markdown = py_strip (re_sub_newlines markdown)"

subsection \<open>The parse tree\<close>

text \<open>
  A BeautifulSoup tree: a \<open>Tag\<close> has a name, its attributes in order and its contents; a
  \<open>NavigableString\<close> is a text leaf. The \<open>BeautifulSoup\<close> object itself is the tag
  \<open>[document]\<close> at the root.
\<close>

datatype node =
    Tag string "(string \<times> string) list" "node list"
  | NavigableString string

text \<open>All nodes below a node, in document order (\<open>Tag.descendants\<close>).\<close>

fun descendants :: "node \<Rightarrow> node list" where
  "descendants (Tag nm as cs) = concat (map (\<lambda>c. c # descendants c) cs)"
| "descendants (NavigableString t) = []"

definition named :: "string list \<Rightarrow> node \<Rightarrow> bool" where
  "named names n =
     (case n of Tag nm _ _ \<Rightarrow> nm \<in> set names | NavigableString _ \<Rightarrow> False)"

text \<open>\<open>root.find_all(names)\<close>, which \<open>root(names)\<close> abbreviates, and \<open>root.find(nm)\<close>.\<close>

definition find_all :: "string list \<Rightarrow> node \<Rightarrow> node list" where
  "find_all names root = filter (named names) (descendants root)"

definition find_tag :: "string \<Rightarrow> node \<Rightarrow> node option" where
  "find_tag nm root = (case find_all [nm] root of [] \<Rightarrow> None | t # _ \<Rightarrow> Some t)"

text \<open>
  \<open>find\<close> returns a reference into the tree, and \<open>crawl\<close> mutates the tag it got. The
  reference is the path of child indices from the root, returned with the tag found:
  the first tag of that name in document order.
\<close>

fun find_ref :: "string \<Rightarrow> node \<Rightarrow> (nat list \<times> node) option"
  and find_ref_from :: "string \<Rightarrow> nat \<Rightarrow> node list \<Rightarrow> (nat list \<times> node) option" where
  "find_ref nm (NavigableString t) = None"
| "find_ref nm (Tag n as cs) = find_ref_from nm 0 cs"
| "find_ref_from nm i [] = None"
| "find_ref_from nm i (c # cs) =
     (if named [nm] c then Some ([i], c)
      else (case find_ref nm c of
              Some (p, r) \<Rightarrow> Some (i # p, r)
            | None \<Rightarrow> find_ref_from nm (Suc i) cs))"

text \<open>The tree after the node at a path was mutated into \<open>new\<close>.\<close>

fun replace_at :: "nat list \<Rightarrow> node \<Rightarrow> node \<Rightarrow> node" where
  "replace_at [] new old = new"
| "replace_at (i # p) new (Tag nm as cs) =
     (if i < length cs then Tag nm as (cs[i := replace_at p new (cs ! i)]) else Tag nm as cs)"
| "replace_at (i # p) new (NavigableString t) = NavigableString t"

text \<open>
  \<^verbatim>\<open>for tag in main_content(['script', 'style', 'nav', 'footer']): tag.decompose()\<close>
  removes every descendant of those names, with all it contains.
\<close>

fun decompose_all :: "string list \<Rightarrow> node \<Rightarrow> node" where
  "decompose_all names (Tag nm as cs) =
     Tag nm as (map (decompose_all names) (filter (\<lambda>c. \<not> named names c) cs))"
| "decompose_all names (NavigableString t) = NavigableString t"

text \<open>
  The body of the loop over \<open>main_content.find_all(['a', 'img'])\<close>; \<open>tag.get(k)\<close> is
  true for an attribute that is present and not the empty string.
\<close>

definition resolve_tag :: "(string \<Rightarrow> string) \<Rightarrow> node \<Rightarrow> node" where
  "resolve_tag join n =
     (case n of
        NavigableString t \<Rightarrow> NavigableString t
      | Tag nm as cs \<Rightarrow>
          (if nm = ''a'' \<and> (case map_of as ''href'' of None \<Rightarrow> False | Some h \<Rightarrow> h \<noteq> [])
           then Tag nm (AList.update ''href'' (join (the (map_of as ''href''))) as) cs
           else if nm = ''img'' \<and> (case map_of as ''src'' of None \<Rightarrow> False | Some h \<Rightarrow> h \<noteq> [])
           then Tag nm (AList.update ''src'' (join (the (map_of as ''src''))) as) cs
           else Tag nm as cs))"

fun resolve_urls :: "(string \<Rightarrow> string) \<Rightarrow> node \<Rightarrow> node" where
  "resolve_urls join (Tag nm as cs) =
     Tag nm as (map (\<lambda>c. resolve_tag join (resolve_urls join c)) cs)"
| "resolve_urls join (NavigableString t) = NavigableString t"

text \<open>
  The property \<open>.string\<close>: the text of a tag whose only child is a text, or whose only
  child is a tag that has a \<open>.string\<close>; \<open>None\<close> otherwise.
\<close>

fun node_string :: "node \<Rightarrow> string option" where
  "node_string (NavigableString t) = Some t"
| "node_string (Tag nm as cs) = (case cs of [c] \<Rightarrow> node_string c | _ \<Rightarrow> None)"

text \<open>
  \<^verbatim>\<open>soup.find_all('a', href=True)\<close>, each tag read at \<open>['href']\<close>: the link targets of
  all anchors that carry the attribute, in document order.
\<close>

definition link_targets :: "node \<Rightarrow> string list" where
  "link_targets soup =
     List.map_filter
       (\<lambda>n. case n of
               Tag nm as _ \<Rightarrow> (if nm = ''a'' then map_of as ''href'' else None)
             | NavigableString _ \<Rightarrow> None)
       (descendants soup)"

subsection \<open>The scraper and its collaborators\<close>

text \<open>
  The libraries the crawl calls are parameters: \<open>urlparse\<close> (of which the code reads
  \<open>netloc\<close> and \<open>path\<close>) and \<open>urljoin\<close> of \<open>urllib.parse\<close>, taken as pure functions;
  the browser (\<open>page.goto\<close> followed by \<open>page.content\<close>), the parser
  \<open>BeautifulSoup(content, 'html.parser')\<close> and the converter
  \<open>md(str(main_content), heading_style="ATX")\<close>, each of which may raise.
\<close>

record url_parts =
  netloc :: string
  path :: string

record env =
  urlparse :: "string \<Rightarrow> url_parts"
  urljoin :: "string \<Rightarrow> string \<Rightarrow> string"
  page_content :: "string \<Rightarrow> exn + string"
  beautiful_soup :: "string \<Rightarrow> exn + node"
  markdownify :: "node \<Rightarrow> exn + string"

text \<open>
  The fields of \<open>Scraper\<close>, and the two outputs of the loop: \<open>progress\<close> holds the URLs
  of the successive calls \<open>progress.update(description=f"Crawling: {url}")\<close>, \<open>console\<close>
  the lines of \<open>console.print\<close>.
\<close>

record scraper =
  start_url :: string
  output_file :: string
  visited :: "string set"
  seen_urls :: "string set"
  queue :: "string list"
  base_domain :: string
  base_path :: string
  markdown_content :: "string list"
  progress :: "string list"
  console :: "string list"

text \<open>\<open>Scraper.__init__\<close>\<close>

definition init :: "env \<Rightarrow> string \<Rightarrow> string \<Rightarrow> exn + scraper" where
  "init env start out =
     (case normalize_url start of
        Inl e \<Rightarrow> Inl e
      | Inr key \<Rightarrow>
          (let s = \<lparr> start_url = start, output_file = out, visited = {},
                     seen_urls = {key}, queue = [start],
                     base_domain = netloc (urlparse env start),
                     base_path = path (urlparse env start),
                     markdown_content = [], progress = [], console = [] \<rparr>
           in if py_endswith (base_path s) ''/'' then Inr s
              else (case py_item_last (py_split CHR ''/'' (base_path s)) of
                      Inl e \<Rightarrow> Inl e
                    | Inr seg \<Rightarrow>
                        (if CHR ''.'' \<notin> set seg
                         then Inr (s\<lparr>base_path := base_path s @ ''/''\<rparr>)
                         else Inr s))))"

text \<open>\<open>Scraper.is_valid_url\<close>; the second \<open>if\<close> of the source has the body \<open>pass\<close>.\<close>

definition is_valid_url :: "env \<Rightarrow> scraper \<Rightarrow> string \<Rightarrow> bool" where
  "is_valid_url env s url =
     (let parsed = urlparse env url
      in if netloc parsed \<noteq> base_domain s then False
         else (let skip = (if \<not> py_startswith url (start_url s) then () else ())
               in True))"

subsection \<open>\<open>Scraper.crawl\<close>\<close>

text \<open>The body of the loop over the links found (lines 101 to 110).\<close>

definition enqueue_link :: "env \<Rightarrow> string \<Rightarrow> scraper \<Rightarrow> string \<Rightarrow> exn + scraper" where
  "enqueue_link env url s href =
     (let full_url = urljoin env url href
      in case normalize_url full_url of
           Inl e \<Rightarrow> Inl e
         | Inr normalized_full \<Rightarrow>
             Inr (if is_valid_url env s full_url
                     \<and> normalized_full \<notin> visited s
                     \<and> normalized_full \<notin> seen_urls s
                  then s\<lparr>seen_urls := insert normalized_full (seen_urls s),
                         queue := queue s @ [full_url]\<rparr>
                  else s))"

text \<open>
  The loop over the links: the state it leaves, and the exception that ended it early
  if there was one.
\<close>

fun find_links :: "env \<Rightarrow> string \<Rightarrow> string list \<Rightarrow> scraper \<Rightarrow> scraper \<times> exn option" where
  "find_links env url [] s = (s, None)"
| "find_links env url (href # hrefs) s =
     (case enqueue_link env url s href of
        Inl e \<Rightarrow> (s, Some e)
      | Inr s' \<Rightarrow> find_links env url hrefs s')"

text \<open>
  \<^verbatim>\<open>main_content = soup.find('main') or soup.find('article') or soup.find('body')\<close>;
  a \<open>Tag\<close> is always true, so \<open>or\<close> takes the first that is not \<open>None\<close>.
\<close>

definition select_region :: "node \<Rightarrow> (nat list \<times> node) option" where
  "select_region soup =
     (case find_ref ''main'' soup of
        Some r \<Rightarrow> Some r
      | None \<Rightarrow>
          (case find_ref ''article'' soup of
             Some r \<Rightarrow> Some r
           | None \<Rightarrow> find_ref ''body'' soup))"

text \<open>Lines 81 to 89: what the two loops make of the tag \<open>main_content\<close>.\<close>

definition clean_region :: "env \<Rightarrow> string \<Rightarrow> node \<Rightarrow> node" where
  "clean_region env url region =
     resolve_urls (urljoin env url)
       (decompose_all [''script'', ''style'', ''nav'', ''footer''] region)"

text \<open>
  \<^verbatim>\<open>title = soup.title.string if soup.title else url\<close>, as the f-string prints it:
  \<open>None\<close> is printed as the text \<open>None\<close>.
\<close>

definition page_title :: "string \<Rightarrow> node \<Rightarrow> string" where
  "page_title url soup =
     (case find_tag ''title'' soup of
        None \<Rightarrow> url
      | Some t \<Rightarrow> (case node_string t of None \<Rightarrow> ''None'' | Some str \<Rightarrow> str))"

text \<open>\<^verbatim>\<open>f"# {title}\n\nURL: {url}\n\n{markdown}\n\n---\n\n"\<close>\<close>

definition page_block :: "string \<Rightarrow> string \<Rightarrow> string \<Rightarrow> string" where
  "page_block title url markdown =
     ''# '' @ title @ [CHR 0x0A, CHR 0x0A] @ ''URL: '' @ url @ [CHR 0x0A, CHR 0x0A]
       @ markdown @ [CHR 0x0A, CHR 0x0A] @ ''---'' @ [CHR 0x0A, CHR 0x0A]"

text \<open>
  The body of \<open>try\<close> (lines 72 to 110): the state it leaves and the exception it raised,
  if any. \<open>main_content\<close> is a tag of \<open>soup\<close>, not a copy: what lines 81 to 89 do to it
  they do to \<open>soup\<close>, and the title and the links are read from \<open>soup\<close> afterwards.
\<close>

definition scrape_page :: "env \<Rightarrow> string \<Rightarrow> scraper \<Rightarrow> scraper \<times> exn option" where
  "scrape_page env url s =
     (case page_content env url of
        Inl e \<Rightarrow> (s, Some e)
      | Inr content \<Rightarrow>
     (case beautiful_soup env content of
        Inl e \<Rightarrow> (s, Some e)
      | Inr soup \<Rightarrow>
     (case select_region soup of
        None \<Rightarrow> find_links env url (link_targets soup) s
      | Some (p, region) \<Rightarrow>
          (let main_content = clean_region env url region;
               soup' = replace_at p main_content soup;
               title = page_title url soup'
           in case markdownify env main_content of
                Inl e \<Rightarrow> (s, Some e)
              | Inr markdown \<Rightarrow>
                  find_links env url (link_targets soup')
                    (s\<lparr>markdown_content := markdown_content s
                          @ [page_block title url (post_process markdown)]\<rparr>)))))"

text \<open>Lines 68 and 69, and the handler of line 113.\<close>

definition mark_visited :: "string \<Rightarrow> string \<Rightarrow> scraper \<Rightarrow> scraper" where
  "mark_visited url normalized_url s =
     s\<lparr>visited := insert normalized_url (visited s), progress := progress s @ [url]\<rparr>"

definition report_error :: "string \<Rightarrow> exn \<Rightarrow> scraper \<Rightarrow> scraper" where
  "report_error url e s =
     (case e of Exception msg \<Rightarrow>
        s\<lparr>console := console s @ [''[red]Error scraping '' @ url @ '': '' @ msg @ ''[/red]'']\<rparr>)"

text \<open>
  One pass through the body of \<open>while self.queue\<close> (lines 62 to 113). \<open>Inl\<close> is an
  exception that leaves the loop: only line 62 on an empty queue and line 63 are outside
  \<open>try\<close>.
\<close>

definition crawl_iter :: "env \<Rightarrow> scraper \<Rightarrow> exn + scraper" where
  "crawl_iter env s =
     (case queue s of
        [] \<Rightarrow> Inl (Exception ''IndexError: pop from empty list'')
      | url # rest \<Rightarrow>
          (let s1 = s\<lparr>queue := rest\<rparr>
           in case normalize_url url of
                Inl e \<Rightarrow> Inl e
              | Inr normalized_url \<Rightarrow>
                  if normalized_url \<in> visited s1 then Inr s1
                  else (case scrape_page env url (mark_visited url normalized_url s1) of
                          (s2, None) \<Rightarrow> Inr s2
                        | (s2, Some e) \<Rightarrow> Inr (report_error url e s2))))"

text \<open>
  The loop may run forever on a site that never stops linking to new pages.
  \<open>crawl_iterations n\<close> is the state after the first \<open>n\<close> passes, or the final state when
  the queue was empty before; \<open>crawl_loop n\<close> is the state in which the loop ends, or
  \<open>None\<close> when it does not end within \<open>n\<close> passes.
\<close>

fun crawl_iterations :: "nat \<Rightarrow> env \<Rightarrow> scraper \<Rightarrow> exn + scraper" where
  "crawl_iterations 0 env s = Inr s"
| "crawl_iterations (Suc n) env s =
     (if queue s = [] then Inr s
      else (case crawl_iter env s of
              Inl e \<Rightarrow> Inl e
            | Inr s' \<Rightarrow> crawl_iterations n env s'))"

fun crawl_loop :: "nat \<Rightarrow> env \<Rightarrow> scraper \<Rightarrow> (exn + scraper) option" where
  "crawl_loop 0 env s = (if queue s = [] then Some (Inr s) else None)"
| "crawl_loop (Suc n) env s =
     (if queue s = [] then Some (Inr s)
      else (case crawl_iter env s of
              Inl e \<Rightarrow> Some (Inl e)
            | Inr s' \<Rightarrow> crawl_loop n env s'))"

subsection \<open>The invariant of the frontier\<close>

text \<open>
  What holds between the passes of the loop: the queue holds no key twice, every queued
  and every visited key has been seen, no queued key is visited, and the visited keys are
  the keys of the URLs processed so far, each processed once.
\<close>

definition frontier_inv :: "scraper \<Rightarrow> bool" where
  "frontier_inv s \<longleftrightarrow>
     distinct (map url_key (queue s))
     \<and> url_key ` set (queue s) \<subseteq> seen_urls s
     \<and> visited s \<subseteq> seen_urls s
     \<and> url_key ` set (queue s) \<inter> visited s = {}
     \<and> visited s = url_key ` set (progress s)
     \<and> distinct (map url_key (progress s))"

subsection \<open>A site to run the crawl on\<close>

text \<open>
  Four pages on the host \<open>h\<close>: \<open>s\<close> links to \<open>a\<close> and \<open>b\<close> (and again to \<open>a\<close> with a
  trailing slash and a fragment, and to another host), \<open>a\<close> has an empty title and links
  to \<open>c\<close>, \<open>b\<close> cannot be loaded, \<open>c\<close> has no \<open>main\<close>, \<open>article\<close> or \<open>body\<close>. A fifth
  page \<open>d\<close> has its only link in a \<open>nav\<close> inside \<open>body\<close>. The URL functions handle
  \<open>https\<close> URLs and targets that start with \<open>/\<close>; the converter returns the text of the
  region.
\<close>

definition ex_urlparse :: "string \<Rightarrow> url_parts" where
  "ex_urlparse url =
     \<lparr> netloc = takeWhile (\<lambda>c. c \<noteq> CHR ''/'') (drop 8 url),
       path = takeWhile (\<lambda>c. c \<noteq> CHR ''#'') (dropWhile (\<lambda>c. c \<noteq> CHR ''/'') (drop 8 url)) \<rparr>"

definition ex_urljoin :: "string \<Rightarrow> string \<Rightarrow> string" where
  "ex_urljoin base href =
     (if py_startswith href ''/'' then take 8 base @ netloc (ex_urlparse base) @ href else href)"

definition ex_doc_s :: node where
  "ex_doc_s = Tag ''[document]'' []
     [Tag ''title'' [] [NavigableString ''S''],
      Tag ''main'' []
        [Tag ''a'' [(''href'', ''https://h/a'')] [NavigableString ''A''],
         Tag ''a'' [(''href'', ''/b'')] [NavigableString ''B''],
         Tag ''a'' [(''href'', ''https://h/a/#top'')] [NavigableString ''A again''],
         Tag ''a'' [(''href'', ''https://o/x'')] [NavigableString ''X'']]]"

definition ex_doc_a :: node where
  "ex_doc_a = Tag ''[document]'' []
     [Tag ''title'' [] [],
      Tag ''body'' [] [Tag ''a'' [(''href'', ''/c'')] [NavigableString ''C'']]]"

definition ex_doc_c :: node where
  "ex_doc_c = Tag ''[document]'' []
     [Tag ''p'' [] [NavigableString ''text''],
      Tag ''a'' [(''href'', ''https://h/s'')] [NavigableString ''S'']]"

definition ex_doc_d :: node where
  "ex_doc_d = Tag ''[document]'' []
     [Tag ''body'' []
        [Tag ''nav'' [] [Tag ''a'' [(''href'', ''/b'')] [NavigableString ''B'']],
         Tag ''p'' [] [NavigableString ''x'']]]"

definition ex_page_content :: "string \<Rightarrow> exn + string" where
  "ex_page_content url =
     (if url = ''https://h/s'' then Inr ''page s''
      else if url = ''https://h/a'' then Inr ''page a''
      else if url = ''https://h/c'' then Inr ''page c''
      else if url = ''https://h/d'' then Inr ''page d''
      else Inl (Exception ''net::ERR_CONNECTION_REFUSED''))"

definition ex_beautiful_soup :: "string \<Rightarrow> exn + node" where
  "ex_beautiful_soup content =
     (if content = ''page s'' then Inr ex_doc_s
      else if content = ''page a'' then Inr ex_doc_a
      else if content = ''page c'' then Inr ex_doc_c
      else if content = ''page d'' then Inr ex_doc_d
      else Inr (Tag ''[document]'' [] []))"

definition ex_markdownify :: "node \<Rightarrow> exn + string" where
  "ex_markdownify n =
     Inr (concat (List.map_filter
            (\<lambda>d. case d of NavigableString t \<Rightarrow> Some t | Tag _ _ _ \<Rightarrow> None)
            (descendants n)))"

definition ex_env :: env where
  "ex_env = \<lparr> urlparse = ex_urlparse, urljoin = ex_urljoin, page_content = ex_page_content,
              beautiful_soup = ex_beautiful_soup, markdownify = ex_markdownify \<rparr>"

text \<open>The scraper that \<open>init\<close> builds for the seed \<open>https://h/\<close> followed by a page name.\<close>

definition ex_scraper :: "string \<Rightarrow> scraper" where
  "ex_scraper pg =
     \<lparr> start_url = ''https://h/'' @ pg, output_file = ''docs.md'', visited = {},
       seen_urls = {''https://h/'' @ pg}, queue = [''https://h/'' @ pg],
       base_domain = ''h'', base_path = ''/'' @ pg @ ''/'', markdown_content = [],
       progress = [], console = [] \<rparr>"

text \<open>The states of the crawl from \<open>s\<close> after each of its four passes.\<close>

definition ex_after_s :: scraper where
  "ex_after_s = (ex_scraper ''s'')
     \<lparr> visited := {''https://h/s''},
       seen_urls := {''https://h/b'', ''https://h/a'', ''https://h/s''},
       queue := [''https://h/a'', ''https://h/b''],
       markdown_content := [page_block ''S'' ''https://h/s'' ''ABA againX''],
       progress := [''https://h/s''] \<rparr>"

definition ex_after_a :: scraper where
  "ex_after_a = ex_after_s
     \<lparr> visited := {''https://h/a'', ''https://h/s''},
       seen_urls := {''https://h/c'', ''https://h/b'', ''https://h/a'', ''https://h/s''},
       queue := [''https://h/b'', ''https://h/c''],
       markdown_content := [page_block ''S'' ''https://h/s'' ''ABA againX'',
                            page_block ''None'' ''https://h/a'' ''C''],
       progress := [''https://h/s'', ''https://h/a''] \<rparr>"

definition ex_after_b :: scraper where
  "ex_after_b = ex_after_a
     \<lparr> visited := {''https://h/b'', ''https://h/a'', ''https://h/s''},
       queue := [''https://h/c''],
       progress := [''https://h/s'', ''https://h/a'', ''https://h/b''],
       console := [''[red]Error scraping https://h/b: net::ERR_CONNECTION_REFUSED[/red]''] \<rparr>"

definition ex_after_c :: scraper where
  "ex_after_c = ex_after_b
     \<lparr> visited := {''https://h/c'', ''https://h/b'', ''https://h/a'', ''https://h/s''},
       queue := [],
       progress := [''https://h/s'', ''https://h/a'', ''https://h/b'', ''https://h/c''] \<rparr>"

section \<open>Properties\<close>

subsection \<open>The normalizer\<close>

lemma py_split_head: "\<exists>ws. py_split sep s = takeWhile (\<lambda>c. c \<noteq> sep) s # ws"
  by (induction s) auto

lemma normalize_url_Inr:
  "normalize_url u = Inr (py_rstrip ''/'' (takeWhile (\<lambda>c. c \<noteq> CHR ''#'') u))"
proof -
  obtain ws where "py_split CHR ''#'' u = takeWhile (\<lambda>c. c \<noteq> CHR ''#'') u # ws"
    using py_split_head by blast
  then show ?thesis by (simp add: normalize_url_def py_item0_def)
qed

lemma normalize_url_key: "normalize_url u = Inr (url_key u)"
  by (simp add: url_key_def normalize_url_Inr)

lemma py_rstrip_decomp: "\<exists>k. s = py_rstrip ''/'' s @ replicate k CHR ''/''"
proof -
  let ?t = "takeWhile (\<lambda>c. c = CHR ''/'') (rev s)"
  let ?d = "dropWhile (\<lambda>c. c = CHR ''/'') (rev s)"
  have "rev s = ?t @ ?d" by simp
  moreover have "?t = replicate (length ?t) CHR ''/''"
    by (rule replicate_length_same [symmetric]) (auto dest: set_takeWhileD)
  ultimately have "rev (rev s) = rev ?d @ rev (replicate (length ?t) CHR ''/'')"
    by (metis rev_append)
  then show ?thesis by (auto simp: py_rstrip_def)
qed

lemma py_rstrip_last: "py_rstrip ''/'' s = [] \<or> last (py_rstrip ''/'' s) \<noteq> CHR ''/''"
proof (cases "dropWhile (\<lambda>c. c = CHR ''/'') (rev s)")
  case Nil
  then show ?thesis by (simp add: py_rstrip_def)
next
  case (Cons a as)
  then have "a \<noteq> CHR ''/''"
    using hd_dropWhile [of "\<lambda>c. c = CHR ''/''" "rev s"] by auto
  with Cons show ?thesis by (simp add: py_rstrip_def)
qed

lemma py_rstrip_fix: "s = [] \<or> last s \<noteq> CHR ''/'' \<Longrightarrow> py_rstrip ''/'' s = s"
  by (cases s rule: rev_cases) (auto simp: py_rstrip_def)

lemma py_rstrip_set: "set (py_rstrip chars s) \<subseteq> set s"
  using set_dropWhileD [of _ "\<lambda>c. c \<in> set chars" "rev s"] by (auto simp: py_rstrip_def)

lemma takeWhile_no_hash: "CHR ''#'' \<notin> set s \<Longrightarrow> takeWhile (\<lambda>c. c \<noteq> CHR ''#'') s = s"
  by (induction s) auto

text \<open>
  Claim C5, as the code has it: for every string \<open>u\<close>, \<open>normalize_url u\<close> returns (it
  never raises) the part of \<open>u\<close> before the first \<open>#\<close> with all its trailing \<open>/\<close> removed,
  so the result \<open>r\<close> does not end in \<open>/\<close>; and normalizing \<open>r\<close> again returns \<open>r\<close>.
\<close>

theorem normalize_url_strips_all_slashes:
  "\<exists>r k. normalize_url u = Inr r
     \<and> takeWhile (\<lambda>c. c \<noteq> CHR ''#'') u = r @ replicate k CHR ''/''
     \<and> (r = [] \<or> last r \<noteq> CHR ''/'')
     \<and> normalize_url r = Inr r"
proof -
  let ?p = "takeWhile (\<lambda>c. c \<noteq> CHR ''#'') u"
  let ?r = "py_rstrip ''/'' ?p"
  have 1: "normalize_url u = Inr ?r" by (rule normalize_url_Inr)
  obtain k where 2: "?p = ?r @ replicate k CHR ''/''" using py_rstrip_decomp by blast
  have 3: "?r = [] \<or> last ?r \<noteq> CHR ''/''" by (rule py_rstrip_last)
  have "CHR ''#'' \<notin> set ?p" by (auto dest: set_takeWhileD)
  then have "CHR ''#'' \<notin> set ?r" using py_rstrip_set by blast
  then have tw: "takeWhile (\<lambda>c. c \<noteq> CHR ''#'') ?r = ?r" by (rule takeWhile_no_hash)
  have "normalize_url ?r = Inr (py_rstrip ''/'' (takeWhile (\<lambda>c. c \<noteq> CHR ''#'') ?r))"
    by (rule normalize_url_Inr)
  also have "\<dots> = Inr (py_rstrip ''/'' ?r)" by (simp only: tw)
  also have "\<dots> = Inr ?r" by (simp only: py_rstrip_fix [OF 3])
  finally have 4: "normalize_url ?r = Inr ?r" .
  from 1 2 3 4 show ?thesis by blast
qed

text \<open>
  The claim as the specification words it (one trailing \<open>/\<close> is removed) fails on a URL
  that ends in two: the code removes both.
\<close>

theorem normalize_url_one_slash_counterexample:
  "normalize_url ''https://a/b//'' = Inr ''https://a/b''
   \<and> normalize_one_slash_spec ''https://a/b//'' = ''https://a/b/''
   \<and> normalize_url ''https://a/b//'' \<noteq> Inr (normalize_one_slash_spec ''https://a/b//'')"
  by (simp add: normalize_url_def py_item0_def py_rstrip_def normalize_one_slash_spec_def)

subsection \<open>The collapsing of line feeds\<close>

lemma takeWhile_nl_append:
  "xs \<noteq> [] \<Longrightarrow> last xs \<noteq> CHR 0x0A \<Longrightarrow>
   takeWhile (\<lambda>x. x = CHR 0x0A) (xs @ zs) = takeWhile (\<lambda>x. x = CHR 0x0A) xs"
  by (rule takeWhile_append1 [of "last xs"]) auto

lemma dropWhile_nl_append:
  "xs \<noteq> [] \<Longrightarrow> last xs \<noteq> CHR 0x0A \<Longrightarrow>
   dropWhile (\<lambda>x. x = CHR 0x0A) (xs @ zs) = dropWhile (\<lambda>x. x = CHR 0x0A) xs @ zs"
  by (rule dropWhile_append1 [of "last xs"]) auto

lemma dropWhile_nl_last:
  "xs \<noteq> [] \<Longrightarrow> last xs \<noteq> CHR 0x0A \<Longrightarrow>
   dropWhile (\<lambda>x. x = CHR 0x0A) xs \<noteq> []
   \<and> last (dropWhile (\<lambda>x. x = CHR 0x0A) xs) = last xs"
  by (induction xs) (auto split: if_splits)

lemma re_sub_newlines_append:
  "xs = [] \<or> last xs \<noteq> CHR 0x0A \<Longrightarrow>
   re_sub_newlines (xs @ zs) = re_sub_newlines xs @ re_sub_newlines zs"
proof (induction xs rule: re_sub_newlines.induct)
  case 1
  then show ?case by simp
next
  case (2 c cs)
  have ne: "c # cs \<noteq> []" by simp
  from 2(3) have l: "last (c # cs) \<noteq> CHR 0x0A" by simp
  note tw = takeWhile_nl_append [OF ne l, of zs]
  note dw = dropWhile_nl_append [OF ne l, of zs]
  show ?case
  proof (cases "3 \<le> length (takeWhile (\<lambda>x. x = CHR 0x0A) (c # cs))")
    case True
    have "dropWhile (\<lambda>x. x = CHR 0x0A) (c # cs) = [] \<or>
          last (dropWhile (\<lambda>x. x = CHR 0x0A) (c # cs)) \<noteq> CHR 0x0A"
      using dropWhile_nl_last [OF ne l] l by simp
    from 2(1) [OF True this] True tw dw show ?thesis
      by (simp only: append_Cons re_sub_newlines.simps if_True)
  next
    case False
    have "cs = [] \<or> last cs \<noteq> CHR 0x0A" using l by (cases cs) auto
    from 2(2) [OF False this] False tw show ?thesis
      by (simp only: append_Cons re_sub_newlines.simps if_False)
  qed
qed

lemma re_sub_newlines_run:
  "ys = [] \<or> hd ys \<noteq> CHR 0x0A \<Longrightarrow>
   re_sub_newlines (replicate n CHR 0x0A @ ys)
     = replicate (if 3 \<le> n then 2 else n) CHR 0x0A @ re_sub_newlines ys"
proof (induction n)
  case 0
  then show ?case by simp
next
  case (Suc n)
  have tw0: "takeWhile (\<lambda>x. x = CHR 0x0A) ys = []"
    using Suc.prems by (cases ys) auto
  have dw0: "dropWhile (\<lambda>x. x = CHR 0x0A) ys = ys"
    using Suc.prems by (cases ys) auto
  have tw: "takeWhile (\<lambda>x. x = CHR 0x0A) (replicate m CHR 0x0A @ ys) = replicate m CHR 0x0A"
    for m by (induction m) (simp_all add: tw0)
  have dw: "dropWhile (\<lambda>x. x = CHR 0x0A) (replicate m CHR 0x0A @ ys) = ys"
    for m by (induction m) (simp_all add: dw0)
  show ?case
  proof (cases "3 \<le> Suc n")
    case True
    then show ?thesis
      using tw [of "Suc n"] dw [of "Suc n"] by (simp add: numeral_eq_Suc)
  next
    case False
    then show ?thesis
      using tw [of "Suc n"] Suc.IH [OF Suc.prems] by (simp add: numeral_eq_Suc)
  qed
qed

text \<open>
  Claim C3, as the code has it. Between a text that does not end in a line feed and a
  text that does not start with one, \<open>n\<close> line feeds are \<open>n - 1\<close> blank lines. A run of
  three or more line feeds (two or more blank lines, so four blank lines as well) becomes
  two line feeds, which is one blank line at that position; a run of one or two line
  feeds (no blank line, or a single one) stays as it is. Leading and trailing whitespace
  is stripped afterwards.
\<close>

theorem post_process_collapses_runs:
  assumes "xs = [] \<or> last xs \<noteq> CHR 0x0A" and "ys = [] \<or> hd ys \<noteq> CHR 0x0A"
  shows "post_process (xs @ replicate n CHR 0x0A @ ys)
       = py_strip (re_sub_newlines xs @ replicate (if 3 \<le> n then 2 else n) CHR 0x0A
                    @ re_sub_newlines ys)"
  unfolding post_process_def
  by (simp only: re_sub_newlines_append [OF assms(1)] re_sub_newlines_run [OF assms(2)])

theorem post_process_collapses_runs_witness:
  "(''a'' = [] \<or> last ''a'' \<noteq> CHR 0x0A) \<and> (''b'' = [] \<or> hd ''b'' \<noteq> CHR 0x0A)
   \<and> post_process (''a'' @ replicate 5 CHR 0x0A @ ''b'') = ''a'' @ [CHR 0x0A, CHR 0x0A] @ ''b''"
proof -
  have h1: "''a'' = [] \<or> last ''a'' \<noteq> CHR 0x0A" by simp
  have h2: "''b'' = [] \<or> hd ''b'' \<noteq> CHR 0x0A" by simp
  have "post_process (''a'' @ replicate 5 CHR 0x0A @ ''b'')
      = py_strip (re_sub_newlines ''a'' @ replicate (if 3 \<le> (5::nat) then 2 else 5) CHR 0x0A
                    @ re_sub_newlines ''b'')"
    by (rule post_process_collapses_runs [OF h1 h2])
  also have "\<dots> = ''a'' @ [CHR 0x0A, CHR 0x0A] @ ''b''"
    by (simp add: py_strip_def py_isspace_def numeral_eq_Suc)
  finally show ?thesis using h1 h2 by blast
qed

text \<open>
  The claim as the specification words it fails on a double blank line (three line
  feeds), which does not stay: it becomes a single blank line. Read with a blank line as
  one line feed, it fails as well: four line feeds become two, not one.
\<close>

theorem post_process_double_blank_counterexample:
  "post_process (''a'' @ [CHR 0x0A, CHR 0x0A, CHR 0x0A] @ ''b'') = ''a'' @ [CHR 0x0A, CHR 0x0A] @ ''b''
   \<and> post_process (''a'' @ [CHR 0x0A, CHR 0x0A, CHR 0x0A] @ ''b'')
       \<noteq> ''a'' @ [CHR 0x0A, CHR 0x0A, CHR 0x0A] @ ''b''
   \<and> post_process (''a'' @ [CHR 0x0A, CHR 0x0A, CHR 0x0A, CHR 0x0A] @ ''b'')
       \<noteq> ''a'' @ [CHR 0x0A] @ ''b''"
  by (simp add: post_process_def py_strip_def py_isspace_def)

subsection \<open>The frontier\<close>

lemma enqueue_link_eq:
  "enqueue_link env url s href =
     Inr (if is_valid_url env s (urljoin env url href)
             \<and> url_key (urljoin env url href) \<notin> visited s
             \<and> url_key (urljoin env url href) \<notin> seen_urls s
          then s\<lparr>seen_urls := insert (url_key (urljoin env url href)) (seen_urls s),
                 queue := queue s @ [urljoin env url href]\<rparr>
          else s)"
  by (simp add: enqueue_link_def normalize_url_key Let_def)

lemma enqueue_link_inv:
  assumes inv: "frontier_inv s" and e: "enqueue_link env url s href = Inr s'"
  shows "frontier_inv s'"
proof (cases "is_valid_url env s (urljoin env url href)
             \<and> url_key (urljoin env url href) \<notin> visited s
             \<and> url_key (urljoin env url href) \<notin> seen_urls s")
  case False
  with e have "s' = s" by (auto simp: enqueue_link_eq)
  with inv show ?thesis by simp
next
  case True
  let ?f = "urljoin env url href"
  from True e have s': "s' = s\<lparr>seen_urls := insert (url_key ?f) (seen_urls s),
                                  queue := queue s @ [?f]\<rparr>"
    by (simp add: enqueue_link_eq)
  from inv have q: "url_key ` set (queue s) \<subseteq> seen_urls s"
    and d: "distinct (map url_key (queue s))"
    and v: "visited s \<subseteq> seen_urls s"
    and qv: "url_key ` set (queue s) \<inter> visited s = {}"
    and vp: "visited s = url_key ` set (progress s)"
    and dp: "distinct (map url_key (progress s))"
    unfolding frontier_inv_def by blast+
  from True q have fresh: "url_key ?f \<notin> url_key ` set (queue s)" by blast
  have 1: "distinct (map url_key (queue s'))" using d fresh by (simp add: s')
  have 2: "url_key ` set (queue s') \<subseteq> seen_urls s'" using q by (auto simp: s')
  have 3: "visited s' \<subseteq> seen_urls s'" using v by (auto simp: s')
  have 4: "url_key ` set (queue s') \<inter> visited s' = {}" using qv True by (auto simp: s')
  have 5: "visited s' = url_key ` set (progress s')" using vp by (simp add: s')
  have 6: "distinct (map url_key (progress s'))" using dp by (simp add: s')
  from 1 2 3 4 5 6 show ?thesis by (simp add: frontier_inv_def)
qed

lemma enqueue_link_frame:
  "enqueue_link env url s href = Inr s' \<Longrightarrow>
     visited s' = visited s \<and> progress s' = progress s \<and> console s' = console s
     \<and> markdown_content s' = markdown_content s \<and> (\<exists>new. queue s' = queue s @ new)
     \<and> seen_urls s \<subseteq> seen_urls s'"
  by (auto simp: enqueue_link_eq split: if_splits)

text \<open>The loop over the links never raises, and it only adds to the queue and the seen set.\<close>

lemma find_links_frame:
  "find_links env url hrefs s = (s', r) \<Longrightarrow>
     r = None \<and> visited s' = visited s \<and> progress s' = progress s
     \<and> console s' = console s \<and> markdown_content s' = markdown_content s
     \<and> (\<exists>new. queue s' = queue s @ new) \<and> seen_urls s \<subseteq> seen_urls s'"
proof (induction hrefs arbitrary: s)
  case Nil
  then show ?case by simp
next
  case (Cons h hs)
  obtain s1 where e: "enqueue_link env url s h = Inr s1"
    by (simp add: enqueue_link_eq)
  from Cons.prems e have f: "find_links env url hs s1 = (s', r)" by simp
  from Cons.IH [OF f] enqueue_link_frame [OF e] show ?case
    by (metis append.assoc subset_trans)
qed

lemma find_links_inv:
  "frontier_inv s \<Longrightarrow> find_links env url hrefs s = (s', r) \<Longrightarrow> frontier_inv s'"
proof (induction hrefs arbitrary: s)
  case Nil
  then show ?case by simp
next
  case (Cons h hs)
  obtain s1 where e: "enqueue_link env url s h = Inr s1"
    by (simp add: enqueue_link_eq)
  from Cons.prems(2) e have f: "find_links env url hs s1 = (s', r)" by simp
  from Cons.IH [OF enqueue_link_inv [OF Cons.prems(1) e] f] show ?case .
qed

lemma frontier_inv_markdown [simp]:
  "frontier_inv (s\<lparr>markdown_content := m\<rparr>) = frontier_inv s"
  by (simp add: frontier_inv_def)

lemma frontier_inv_report [simp]:
  "frontier_inv (report_error url e s) = frontier_inv s"
  by (cases e) (simp add: frontier_inv_def report_error_def)

lemma report_error_frame [simp]:
  "visited (report_error url e s) = visited s"
  "progress (report_error url e s) = progress s"
  "queue (report_error url e s) = queue s"
  "seen_urls (report_error url e s) = seen_urls s"
  "markdown_content (report_error url e s) = markdown_content s"
  by (cases e; simp add: report_error_def)+

text \<open>
  What the body of \<open>try\<close> can do to the state: it is the state it started from, or that
  state with one more block of markup, after the loop over the links.
\<close>

lemma scrape_page_cases:
  "scrape_page env url s = (s', r) \<Longrightarrow>
     (s' = s \<and> r \<noteq> None)
     \<or> (\<exists>hrefs. find_links env url hrefs s = (s', r))
     \<or> (\<exists>hrefs m. find_links env url hrefs (s\<lparr>markdown_content := m\<rparr>) = (s', r))"
  unfolding scrape_page_def Let_def
  by (auto split: sum.splits option.splits prod.splits)

lemma scrape_page_props:
  assumes inv: "frontier_inv s" and sp: "scrape_page env url s = (s', r)"
  shows "frontier_inv s' \<and> visited s' = visited s \<and> progress s' = progress s
     \<and> (\<exists>new. queue s' = queue s @ new) \<and> seen_urls s \<subseteq> seen_urls s'"
proof -
  from scrape_page_cases [OF sp] consider
      (same) "s' = s"
    | (links) hrefs where "find_links env url hrefs s = (s', r)"
    | (block) hrefs m where "find_links env url hrefs (s\<lparr>markdown_content := m\<rparr>) = (s', r)"
    by blast
  then show ?thesis
  proof cases
    case same
    with inv show ?thesis by simp
  next
    case links
    from find_links_inv [OF inv links] find_links_frame [OF links] show ?thesis by blast
  next
    case block
    have "frontier_inv (s\<lparr>markdown_content := m\<rparr>)" using inv by simp
    from find_links_inv [OF this block] find_links_frame [OF block] show ?thesis by simp
  qed
qed

subsection \<open>One pass of the loop, and many\<close>

lemma crawl_iter_eq:
  assumes "queue s = u # rest" and "url_key u \<notin> visited s"
    and "scrape_page env u (mark_visited u (url_key u) (s\<lparr>queue := rest\<rparr>)) = (s2, r)"
  shows "crawl_iter env s = Inr (case r of None \<Rightarrow> s2 | Some e \<Rightarrow> report_error u e s2)"
  using assms by (simp add: crawl_iter_def normalize_url_key split: option.splits)

lemma crawl_iter_discard:
  assumes "queue s = u # rest" and "url_key u \<in> visited s"
  shows "crawl_iter env s = Inr (s\<lparr>queue := rest\<rparr>)"
  using assms by (simp add: crawl_iter_def normalize_url_key)

lemma crawl_iter_props:
  assumes inv: "frontier_inv s" and q: "queue s = u # rest"
  shows "\<exists>s' new. crawl_iter env s = Inr s' \<and> frontier_inv s'
     \<and> url_key u \<notin> visited s \<and> visited s' = insert (url_key u) (visited s)
     \<and> progress s' = progress s @ [u] \<and> queue s' = rest @ new
     \<and> seen_urls s \<subseteq> seen_urls s'"
proof -
  let ?s1 = "mark_visited u (url_key u) (s\<lparr>queue := rest\<rparr>)"
  from inv q have nv: "url_key u \<notin> visited s"
    unfolding frontier_inv_def by auto
  from inv q have i1: "frontier_inv ?s1"
    unfolding frontier_inv_def mark_visited_def by auto
  obtain s2 r where sp: "scrape_page env u ?s1 = (s2, r)" by (cases "scrape_page env u ?s1")
  note P = scrape_page_props [OF i1 sp]
  let ?s' = "case r of None \<Rightarrow> s2 | Some e \<Rightarrow> report_error u e s2"
  have ci: "crawl_iter env s = Inr ?s'" by (rule crawl_iter_eq [OF q nv sp])
  have fr: "visited ?s' = visited s2 \<and> progress ?s' = progress s2 \<and> queue ?s' = queue s2
      \<and> seen_urls ?s' = seen_urls s2 \<and> frontier_inv ?s' = frontier_inv s2"
    by (cases r) simp_all
  from P fr have "frontier_inv ?s' \<and> visited ?s' = insert (url_key u) (visited s)
     \<and> progress ?s' = progress s @ [u] \<and> (\<exists>new. queue ?s' = rest @ new)
     \<and> seen_urls s \<subseteq> seen_urls ?s'"
    by (simp add: mark_visited_def)
  with ci nv show ?thesis by blast
qed

lemma init_props:
  "\<exists>s0. init env start out = Inr s0 \<and> frontier_inv s0 \<and> queue s0 = [start]
     \<and> progress s0 = [] \<and> visited s0 = {} \<and> seen_urls s0 = {url_key start}
     \<and> base_domain s0 = netloc (urlparse env start)"
proof -
  obtain ws where "py_split CHR ''/'' (path (urlparse env start))
      = takeWhile (\<lambda>c. c \<noteq> CHR ''/'') (path (urlparse env start)) # ws"
    using py_split_head by blast
  then show ?thesis
    by (simp add: init_def normalize_url_key Let_def py_item_last_def frontier_inv_def)
qed

text \<open>
  First in, first out: the passes never raise, and the next \<open>m\<close> of them process the
  first \<open>m\<close> entries of the queue as the links found on the way extend it at its end.
\<close>

lemma crawl_iterations_fifo:
  "frontier_inv s \<Longrightarrow>
     \<exists>s' new. crawl_iterations m env s = Inr s' \<and> frontier_inv s'
       \<and> progress s' = progress s @ take m (queue s @ new)
       \<and> queue s' = drop m (queue s @ new)
       \<and> visited s \<subseteq> visited s'"
proof (induction m arbitrary: s)
  case 0
  have "crawl_iterations 0 env s = Inr s \<and> frontier_inv s
       \<and> progress s = progress s @ take 0 (queue s @ [])
       \<and> queue s = drop 0 (queue s @ []) \<and> visited s \<subseteq> visited s"
    using 0 by simp
  then show ?case by blast
next
  case (Suc m)
  show ?case
  proof (cases "queue s")
    case Nil
    have "crawl_iterations (Suc m) env s = Inr s \<and> frontier_inv s
       \<and> progress s = progress s @ take (Suc m) (queue s @ [])
       \<and> queue s = drop (Suc m) (queue s @ []) \<and> visited s \<subseteq> visited s"
      using Nil Suc.prems by simp
    then show ?thesis by blast
  next
    case (Cons u rest)
    from crawl_iter_props [OF Suc.prems Cons, of env] obtain s1 new1
      where 1: "crawl_iter env s = Inr s1" and 2: "frontier_inv s1"
        and 3: "visited s1 = insert (url_key u) (visited s)"
        and 4: "progress s1 = progress s @ [u]" and 5: "queue s1 = rest @ new1"
      by blast
    from Suc.IH [OF 2] obtain s' new2
      where 6: "crawl_iterations m env s1 = Inr s'" and 7: "frontier_inv s'"
        and 8: "progress s' = progress s1 @ take m (queue s1 @ new2)"
        and 9: "queue s' = drop m (queue s1 @ new2)"
        and 10: "visited s1 \<subseteq> visited s'"
      by blast
    have "crawl_iterations (Suc m) env s = Inr s'" using Cons 1 6 by simp
    moreover have "progress s' = progress s @ take (Suc m) (queue s @ (new1 @ new2))"
      using 4 5 8 Cons by simp
    moreover have "queue s' = drop (Suc m) (queue s @ (new1 @ new2))"
      using 5 9 Cons by simp
    moreover have "visited s \<subseteq> visited s'" using 3 10 by blast
    ultimately show ?thesis using 7 by blast
  qed
qed

subsection \<open>The crawl of the example site\<close>

text \<open>The definitions that evaluate a crawl, and the four passes over the example site.\<close>

lemmas ex_defs = ex_env_def ex_urlparse_def ex_urljoin_def ex_page_content_def
  ex_beautiful_soup_def ex_markdownify_def ex_doc_s_def ex_doc_a_def ex_doc_c_def ex_doc_d_def
  ex_scraper_def ex_after_s_def ex_after_a_def ex_after_b_def ex_after_c_def

lemmas crawl_defs = init_def crawl_iter_def scrape_page_def mark_visited_def report_error_def
  enqueue_link_def is_valid_url_def select_region_def clean_region_def page_title_def
  page_block_def link_targets_def find_tag_def find_all_def named_def resolve_tag_def
  post_process_def py_strip_def py_isspace_def py_startswith_def py_endswith_def
  py_item0_def py_item_last_def py_rstrip_def normalize_url_def url_key_def
  List.map_filter_def Let_def suffix_def

lemma ex_init_s: "init ex_env ''https://h/s'' ''docs.md'' = Inr (ex_scraper ''s'')"
  by (simp add: crawl_defs ex_defs)

lemma ex_init_d: "init ex_env ''https://h/d'' ''docs.md'' = Inr (ex_scraper ''d'')"
  by (simp add: crawl_defs ex_defs)

lemma ex_pass_s: "crawl_iter ex_env (ex_scraper ''s'') = Inr ex_after_s"
  by (simp add: crawl_defs ex_defs)

lemma ex_pass_a: "crawl_iter ex_env ex_after_s = Inr ex_after_a"
  by (simp add: crawl_defs ex_defs)

lemma ex_pass_b: "crawl_iter ex_env ex_after_a = Inr ex_after_b"
  by (simp add: crawl_defs ex_defs)

lemma ex_pass_c: "crawl_iter ex_env ex_after_b = Inr ex_after_c"
  by (simp add: crawl_defs ex_defs)

lemma ex_queues:
  "queue (ex_scraper ''s'') = [''https://h/s'']"
  "queue ex_after_s = [''https://h/a'', ''https://h/b'']"
  "queue ex_after_a = [''https://h/b'', ''https://h/c'']"
  "queue ex_after_b = [''https://h/c'']"
  "queue ex_after_c = []"
  by (simp_all add: ex_defs)

lemma ex_run: "crawl_iterations 4 ex_env (ex_scraper ''s'') = Inr ex_after_c"
  by (simp add: numeral_eq_Suc ex_queues ex_pass_s ex_pass_a ex_pass_b ex_pass_c)

lemma ex_loop: "crawl_loop 7 ex_env (ex_scraper ''s'') = Some (Inr ex_after_c)"
  by (simp add: numeral_eq_Suc ex_queues ex_pass_s ex_pass_a ex_pass_b ex_pass_c)

subsection \<open>Deduplication\<close>

text \<open>
  Claim C1: in every crawl, after any number of passes of the loop (none of which
  raises), the URLs that went past the visited check, which \<open>progress\<close> lists in order,
  have pairwise different normalized keys, whatever was pushed and popped on the way. A
  push of a link whose normalized key has been seen leaves the state as it is, so it adds
  nothing to the queue; a pop of a URL whose normalized key is visited only removes it
  from the queue.
\<close>

theorem crawl_never_processes_key_twice:
  "\<exists>s0 s. init env start out = Inr s0 \<and> crawl_iterations n env s0 = Inr s
     \<and> distinct (map url_key (progress s))
     \<and> (\<forall>url href t. url_key (urljoin env url href) \<in> seen_urls t
           \<longrightarrow> enqueue_link env url t href = Inr t)
     \<and> (\<forall>t u rest. queue t = u # rest \<and> url_key u \<in> visited t
           \<longrightarrow> crawl_iter env t = Inr (t\<lparr>queue := rest\<rparr>))"
proof -
  obtain s0 where 1: "init env start out = Inr s0" and 2: "frontier_inv s0"
    using init_props by blast
  obtain s where 3: "crawl_iterations n env s0 = Inr s" and 4: "frontier_inv s"
    using crawl_iterations_fifo [OF 2] by blast
  from 4 have 5: "distinct (map url_key (progress s))" by (simp add: frontier_inv_def)
  have 6: "\<forall>url href t. url_key (urljoin env url href) \<in> seen_urls t
           \<longrightarrow> enqueue_link env url t href = Inr t"
    by (simp add: enqueue_link_eq)
  have 7: "\<forall>t u rest. queue t = u # rest \<and> url_key u \<in> visited t
           \<longrightarrow> crawl_iter env t = Inr (t\<lparr>queue := rest\<rparr>)"
    using crawl_iter_discard by blast
  from 1 3 5 6 7 show ?thesis by blast
qed

text \<open>
  On the example site: the four pages are processed once each; the second link to \<open>a\<close>,
  which differs by a trailing slash and a fragment, is not queued; and a queued
  \<open>https://h/s/#top\<close> would be dropped after \<open>s\<close> was visited.
\<close>

theorem crawl_never_processes_key_twice_witness:
  "init ex_env ''https://h/s'' ''docs.md'' = Inr (ex_scraper ''s'')
   \<and> crawl_iterations 4 ex_env (ex_scraper ''s'') = Inr ex_after_c
   \<and> progress ex_after_c = [''https://h/s'', ''https://h/a'', ''https://h/b'', ''https://h/c'']
   \<and> distinct (map url_key (progress ex_after_c))
   \<and> url_key (urljoin ex_env ''https://h/s'' ''https://h/a/#top'') \<in> seen_urls ex_after_s
   \<and> enqueue_link ex_env ''https://h/s'' ex_after_s ''https://h/a/#top'' = Inr ex_after_s
   \<and> queue (ex_after_s\<lparr>queue := [''https://h/s/#top'']\<rparr>) = [''https://h/s/#top'']
   \<and> url_key ''https://h/s/#top'' \<in> visited (ex_after_s\<lparr>queue := [''https://h/s/#top'']\<rparr>)
   \<and> crawl_iter ex_env (ex_after_s\<lparr>queue := [''https://h/s/#top'']\<rparr>)
       = Inr (ex_after_s\<lparr>queue := []\<rparr>)"
proof -
  from crawl_never_processes_key_twice [of ex_env "''https://h/s''" "''docs.md''" 4]
  obtain s0 s where 1: "init ex_env ''https://h/s'' ''docs.md'' = Inr s0"
    and 2: "crawl_iterations 4 ex_env s0 = Inr s"
    and 3: "distinct (map url_key (progress s))"
    and 4: "\<forall>url href t. url_key (urljoin ex_env url href) \<in> seen_urls t
           \<longrightarrow> enqueue_link ex_env url t href = Inr t"
    and 5: "\<forall>t u rest. queue t = u # rest \<and> url_key u \<in> visited t
           \<longrightarrow> crawl_iter ex_env t = Inr (t\<lparr>queue := rest\<rparr>)"
    by blast
  from 1 have s0: "s0 = ex_scraper ''s''" by (simp add: ex_init_s)
  from 2 s0 have s: "s = ex_after_c" by (simp add: ex_run)
  have a: "url_key (urljoin ex_env ''https://h/s'' ''https://h/a/#top'') \<in> seen_urls ex_after_s"
    by (simp add: crawl_defs ex_defs)
  have b: "queue (ex_after_s\<lparr>queue := [''https://h/s/#top'']\<rparr>) = [''https://h/s/#top'']"
    by simp
  have c: "url_key ''https://h/s/#top'' \<in> visited (ex_after_s\<lparr>queue := [''https://h/s/#top'']\<rparr>)"
    by (simp add: crawl_defs ex_defs)
  have p: "progress ex_after_c = [''https://h/s'', ''https://h/a'', ''https://h/b'', ''https://h/c'']"
    by (simp add: ex_defs)
  from 4 a have A: "enqueue_link ex_env ''https://h/s'' ex_after_s ''https://h/a/#top'' = Inr ex_after_s"
    by blast
  from 5 b c have "crawl_iter ex_env (ex_after_s\<lparr>queue := [''https://h/s/#top'']\<rparr>)
       = Inr (ex_after_s\<lparr>queue := [''https://h/s/#top''], queue := []\<rparr>)"
    by blast
  then have C: "crawl_iter ex_env (ex_after_s\<lparr>queue := [''https://h/s/#top'']\<rparr>)
       = Inr (ex_after_s\<lparr>queue := []\<rparr>)" by simp
  from 3 s have D: "distinct (map url_key (progress ex_after_c))" by simp
  show ?thesis using ex_init_s ex_run p D a A b c C by blast
qed

subsection \<open>The order of the visits\<close>






subsection \<open>When a key becomes visited\<close>




subsection \<open>A page that cannot be loaded\<close>



subsection \<open>The scope filter\<close>


subsection \<open>The content region\<close>

text \<open>
  The path \<open>find_ref\<close> returns leads to the tag it returns, and that tag is the first of
  its name in document order, the one \<open>find_tag\<close> returns.
\<close>

lemma find_ref_path:
  "find_ref nm root = Some (q, r) \<Longrightarrow> replace_at q r root = root"
  "find_ref_from nm i cs = Some (q, r) \<Longrightarrow>
     \<exists>j p. q = j # p \<and> i \<le> j \<and> j - i < length cs
       \<and> replace_at p r (cs ! (j - i)) = cs ! (j - i)"
proof (induction nm root and nm i cs arbitrary: q r and q r rule: find_ref_find_ref_from.induct)
  case (1 nm t)
  then show ?case by simp
next
  case (2 nm n as cs)
  from 2(2) have "find_ref_from nm 0 cs = Some (q, r)" by simp
  from 2(1) [OF this] obtain j p where "q = j # p" "j < length cs"
    "replace_at p r (cs ! j) = cs ! j" by auto
  then show ?case by simp
next
  case (3 nm i)
  then show ?case by simp
next
  case (4 nm i c cs)
  show ?case
  proof (cases "named [nm] c")
    case True
    with 4(3) have "q = [i]" "r = c" by simp_all
    then show ?thesis by simp
  next
    case False
    show ?thesis
    proof (cases "find_ref nm c")
      case None
      with 4(3) False have "find_ref_from nm (Suc i) cs = Some (q, r)" by simp
      from 4(2) [OF False None this] obtain j p where jp: "q = j # p" "Suc i \<le> j"
        "j - Suc i < length cs" "replace_at p r (cs ! (j - Suc i)) = cs ! (j - Suc i)" by blast
      then have "(c # cs) ! (j - i) = cs ! (j - Suc i)"
        by (metis Suc_diff_Suc Suc_le_lessD nth_Cons_Suc)
      with jp show ?thesis by auto
    next
      case (Some pr)
      obtain p r' where pr: "pr = (p, r')" by (cases pr)
      with 4(3) False Some have q: "q = i # p" "r = r'" by simp_all
      from 4(1) [OF False] Some pr q have "replace_at p r c = c" by simp
      with q show ?thesis by simp
    qed
  qed
qed






subsection \<open>The title\<close>



subsection \<open>Links inside the content region\<close>

text \<open>
  Claim C2 does not hold of the code. The page \<open>d\<close> has the region \<open>body\<close>, and its only
  link, to \<open>/b\<close>, is in a \<open>nav\<close> inside it. The link is in the document as parsed, it
  resolves to a URL in scope whose key has not been seen, and yet the pass queues
  nothing: line 82 removed the \<open>nav\<close> from \<open>soup\<close> itself before line 100 looked for
  links.
\<close>

theorem nav_links_in_region_are_lost:
  "init ex_env ''https://h/d'' ''docs.md'' = Inr (ex_scraper ''d'')
   \<and> page_content ex_env ''https://h/d'' = Inr ''page d''
   \<and> beautiful_soup ex_env ''page d'' = Inr ex_doc_d
   \<and> link_targets ex_doc_d = [''/b'']
   \<and> urljoin ex_env ''https://h/d'' ''/b'' = ''https://h/b''
   \<and> is_valid_url ex_env (ex_scraper ''d'') ''https://h/b''
   \<and> url_key ''https://h/b'' \<notin> seen_urls (ex_scraper ''d'')
   \<and> crawl_iter ex_env (ex_scraper ''d'')
       = Inr ((ex_scraper ''d'')
               \<lparr> visited := {''https://h/d''}, queue := [],
                 markdown_content := [page_block ''https://h/d'' ''https://h/d'' ''x''],
                 progress := [''https://h/d''] \<rparr>)"
  by (simp add: crawl_defs ex_defs)

end
